theory Spec2Isabelle
  imports Complex_Main "HOL-Library.Sublist"
begin

section \<open>Strings\<close>

text \<open>
  A JavaScript string is modelled as a \<^typ>\<open>string\<close>, a list of 8-bit code units.
  JavaScript numbers are modelled in exact arithmetic: widths, times and opacities as
  \<^typ>\<open>real\<close>, caption ids and counters as \<^typ>\<open>int\<close> or \<^typ>\<open>nat\<close>.
\<close>

abbreviation LF :: char where "LF \<equiv> CHR 0x0A"
abbreviation CR :: char where "CR \<equiv> CHR 0x0D"
abbreviation SP :: char where "SP \<equiv> CHR 0x20"

text \<open>
  \<^verbatim>\<open>s.split(sep)\<close> for a non-empty separator: the string is scanned from the left, every
  occurrence of the separator found ends a piece and the scan resumes behind it. The
  empty string gives one empty piece.
\<close>

function split_str :: "string \<Rightarrow> string \<Rightarrow> string list" where
  "split_str sep [] = [[]]"
| "split_str sep (c # cs) =
     (if prefix sep (c # cs) then [] # split_str sep (drop (length sep - 1) cs)
      else (case split_str sep cs of [] \<Rightarrow> [[c]] | w # ws \<Rightarrow> (c # w) # ws))"
  by pat_completeness auto
termination
  by (relation "measure (\<lambda>(sep, s). length s)") auto

text \<open>\<^verbatim>\<open>arr.join(sep)\<close>.\<close>

fun join_str :: "string \<Rightarrow> string list \<Rightarrow> string" where
  "join_str sep [] = []"
| "join_str sep [x] = x"
| "join_str sep (x # y # ys) = x @ sep @ join_str sep (y # ys)"

section \<open>Layout engine: getWrappedLines\<close>

text \<open>
  \<^verbatim>\<open>getRangeWidth(start, end)\<close>: the widths of the words \<open>start \<le> i < end\<close> added up by the
  loop, plus one space width between neighbours.
\<close>

definition getRangeWidth :: "real list \<Rightarrow> real \<Rightarrow> nat \<Rightarrow> nat \<Rightarrow> real" where
  "getRangeWidth wordWidths spaceWidth start end' =
     (if start \<ge> end' then 0
      else foldl (\<lambda>width i. width + wordWidths ! i) 0 [start..<end']
           + real_of_int (max 0 (int end' - int start - 1)) * spaceWidth)"

text \<open>
  The search for the balanced split. The loop state is \<open>(bestSplit, minDiff)\<close>, starting
  at \<open>(-1, Infinity)\<close>; \<open>Infinity\<close> is \<open>None\<close>.
\<close>

definition split_step ::
  "real list \<Rightarrow> real \<Rightarrow> nat \<Rightarrow> real \<Rightarrow> nat \<Rightarrow> int \<times> real option \<Rightarrow> nat \<Rightarrow> int \<times> real option" where
  "split_step wordWidths spaceWidth n maxWidth visualMaxWords st i =
     (if i > visualMaxWords \<or> n - i > visualMaxWords then st
      else
        let w1 = getRangeWidth wordWidths spaceWidth 0 i;
            w2 = getRangeWidth wordWidths spaceWidth i n
        in if w1 \<le> maxWidth \<and> w2 \<le> maxWidth then
             (let diff = \<bar>w1 - w2\<bar>
              in if (case snd st of None \<Rightarrow> True | Some minDiff \<Rightarrow> diff < minDiff)
                 then (int i, Some diff) else st)
           else st)"

definition findBestSplit :: "real list \<Rightarrow> real \<Rightarrow> nat \<Rightarrow> real \<Rightarrow> nat \<Rightarrow> int" where
  "findBestSplit wordWidths spaceWidth n maxWidth visualMaxWords =
     fst (foldl (split_step wordWidths spaceWidth n maxWidth visualMaxWords) (-1, None) [1..<n])"

text \<open>
  The greedy fallback. The loop state is \<open>(lines, currentLine, currentWidth)\<close>; one step
  handles the word \<open>word\<close> of width \<open>w\<close>.
\<close>

definition greedy_step ::
  "real \<Rightarrow> real \<Rightarrow> nat \<Rightarrow> string list \<times> string list \<times> real \<Rightarrow> string \<times> real
     \<Rightarrow> string list \<times> string list \<times> real" where
  "greedy_step spaceWidth maxWidth visualMaxWords st ww =
     (case st of (lines, currentLine, currentWidth) \<Rightarrow>
      case ww of (word, w) \<Rightarrow>
        let widthOverflow = (length currentLine > 0 \<and> currentWidth + spaceWidth + w > maxWidth);
            wordCountOverflow = (length currentLine \<ge> visualMaxWords)
        in if widthOverflow \<or> wordCountOverflow then
             (if length currentLine > 0
              then (lines @ [join_str [SP] currentLine], [word], w)
              else (lines, currentLine @ [word], w))
           else
             (if length currentLine = 0
              then (lines, currentLine @ [word], w)
              else (lines, currentLine @ [word], currentWidth + spaceWidth + w)))"

definition greedyWrap :: "real \<Rightarrow> real \<Rightarrow> nat \<Rightarrow> string list \<Rightarrow> real list \<Rightarrow> string list" where
  "greedyWrap spaceWidth maxWidth visualMaxWords words wordWidths =
     (case foldl (greedy_step spaceWidth maxWidth visualMaxWords) ([], [], 0) (zip words wordWidths) of
        (lines, currentLine, currentWidth) \<Rightarrow>
          if length currentLine > 0 then lines @ [join_str [SP] currentLine] else lines)"

text \<open>
  The body of \<^verbatim>\<open>getWrappedLines\<close> behind the cache lookup: the lines computed for a text.
  \<open>measureText\<close> is the canvas context's \<^verbatim>\<open>ctx.measureText(s).width\<close> for the font in
  force, \<open>visualMaxWords\<close> the component's state.
\<close>

definition computeLines :: "(string \<Rightarrow> real) \<Rightarrow> nat \<Rightarrow> string \<Rightarrow> real \<Rightarrow> string list" where
  "computeLines measureText visualMaxWords text' maxWidth =
     (let words = split_str [SP] text' in
      if length words = 0 then []
      else
        let spaceWidth = measureText [SP];
            wordWidths = map measureText words;
            totalWidth = getRangeWidth wordWidths spaceWidth 0 (length words)
        in if totalWidth \<le> maxWidth \<and> length words \<le> visualMaxWords then [text']
           else
             let bestSplit = findBestSplit wordWidths spaceWidth (length words) maxWidth visualMaxWords
             in if bestSplit \<noteq> -1 then
                  [join_str [SP] (take (nat bestSplit) words),
                   join_str [SP] (drop (nat bestSplit) words)]
                else greedyWrap spaceWidth maxWidth visualMaxWords words wordWidths)"

text \<open>
  \<^verbatim>\<open>getWrappedLines\<close> with the layout cache \<^verbatim>\<open>textLayoutCache.current\<close> passed in and
  returned. A cached entry is returned as it is; the early return for an empty word list
  stores nothing.
\<close>

type_synonym layout_cache = "int \<rightharpoonup> string list"

definition getWrappedLines ::
  "(string \<Rightarrow> real) \<Rightarrow> nat \<Rightarrow> layout_cache \<Rightarrow> string \<Rightarrow> real \<Rightarrow> int \<Rightarrow> string list \<times> layout_cache" where
  "getWrappedLines measureText visualMaxWords cache text' maxWidth captionId =
     (case cache captionId of
        Some cached \<Rightarrow> (cached, cache)
      | None \<Rightarrow>
          if length (split_str [SP] text') = 0 then ([], cache)
          else
            let res = computeLines measureText visualMaxWords text' maxWidth
            in (res, cache(captionId \<mapsto> res)))"

subsection \<open>Notions used to state the layout properties\<close>

text \<open>
  A line is read back as its words (\<open>line_words\<close>) and measured the way the layout measures
  a range of words (\<open>line_width\<close>): the word widths plus one space width between
  neighbours. \<open>group_width\<close> is the same quantity for a list of words. A split index \<open>i\<close>
  is valid (\<open>valid_split\<close>) when both halves respect the word limit and the width limit;
  \<open>width_diff\<close> is the absolute difference of the two halves' widths. \<open>split_ok\<close>,
  \<open>range_diff\<close>, \<open>group_ok\<close> and \<open>current_ok\<close> are the loop invariants' vocabulary.
\<close>

definition group_width :: "(string \<Rightarrow> real) \<Rightarrow> string list \<Rightarrow> real" where
  "group_width measureText g =
     sum_list (map measureText g) + real (length g - 1) * measureText [SP]"

definition split_ok :: "real list \<Rightarrow> real \<Rightarrow> nat \<Rightarrow> real \<Rightarrow> nat \<Rightarrow> nat \<Rightarrow> bool" where
  "split_ok wordWidths spaceWidth n maxWidth visualMaxWords i =
     (i \<le> visualMaxWords \<and> n - i \<le> visualMaxWords \<and>
      getRangeWidth wordWidths spaceWidth 0 i \<le> maxWidth \<and>
      getRangeWidth wordWidths spaceWidth i n \<le> maxWidth)"

definition range_diff :: "real list \<Rightarrow> real \<Rightarrow> nat \<Rightarrow> nat \<Rightarrow> real" where
  "range_diff wordWidths spaceWidth n i =
     \<bar>getRangeWidth wordWidths spaceWidth 0 i - getRangeWidth wordWidths spaceWidth i n\<bar>"

definition group_ok :: "(string \<Rightarrow> real) \<Rightarrow> real \<Rightarrow> nat \<Rightarrow> string list \<Rightarrow> bool" where
  "group_ok measureText maxWidth visualMaxWords g =
     (length g \<le> visualMaxWords \<and> (group_width measureText g \<le> maxWidth \<or> length g = 1))"

definition current_ok :: "(string \<Rightarrow> real) \<Rightarrow> real \<Rightarrow> nat \<Rightarrow> string list \<Rightarrow> real \<Rightarrow> bool" where
  "current_ok measureText maxWidth visualMaxWords cur cw =
     (cur \<noteq> [] \<longrightarrow> group_ok measureText maxWidth visualMaxWords cur \<and> cw = group_width measureText cur)"

definition line_words :: "string \<Rightarrow> string list" where
  "line_words l = split_str [SP] l"







section \<open>Animation: the state applied to the canvas in drawFrameToCanvas\<close>

text \<open>
  What the animation branch of \<^verbatim>\<open>drawFrameToCanvas\<close> sets on the saved canvas context before
  the caption is drawn: the opacity \<^verbatim>\<open>globalAlpha\<close>, the translation, the scale about the
  caption's anchor \<^verbatim>\<open>(x, centerY)\<close> and the shadow blur. A fresh context has opacity 1, no
  translation, scale 1 and no blur.
\<close>

record anim_state =
  globalAlpha :: real
  translateX :: real
  translateY :: real
  scaleFactorXY :: real
  shadowBlur :: real

definition initial_anim :: anim_state where
  "initial_anim = \<lparr>globalAlpha = 1, translateX = 0, translateY = 0, scaleFactorXY = 1, shadowBlur = 0\<rparr>"

text \<open>\<^verbatim>\<open>Math.max(0, Math.min(1, elapsed / duration))\<close>.\<close>

definition progress_of :: "real \<Rightarrow> real \<Rightarrow> real" where
  "progress_of elapsed duration = max 0 (min 1 (elapsed / duration))"

text \<open>The five segments of the bounce curve.\<close>

definition bounce_yOffset :: "real \<Rightarrow> real" where
  "bounce_yOffset progress =
     (if progress < 0.3 then -20 * (1 - (progress / 0.3))
      else if progress < 0.5 then (let p = (progress - 0.3) / 0.2 in -10 * p)
      else if progress < 0.7 then (let p = (progress - 0.5) / 0.2 in -10 * (1 - p))
      else if progress < 0.9 then (let p = (progress - 0.7) / 0.2 in -2 * p)
      else (let p = (progress - 0.9) / 0.1 in -2 * (1 - p)))"

definition applyAnimation :: "string \<Rightarrow> real \<Rightarrow> real \<Rightarrow> real \<Rightarrow> anim_state" where
  "applyAnimation selectedAnimation elapsed width height =
     (if selectedAnimation \<noteq> ''none'' then
        (let bounceDuration = 0.6; fadeDuration = 0.25; slideDuration = 0.3;
             popDuration = 0.3; shakeDuration = 0.5
         in if selectedAnimation = ''fade'' then
              (let progress = progress_of elapsed fadeDuration
               in initial_anim\<lparr>globalAlpha := progress\<rparr>)
            else if selectedAnimation = ''slide'' then
              (let progress = progress_of elapsed slideDuration;
                   slideOffset = (1 - progress) * (height * 0.05)
               in initial_anim\<lparr>globalAlpha := progress, translateY := slideOffset\<rparr>)
            else if selectedAnimation = ''pop'' then
              (let progress = progress_of elapsed popDuration;
                   scale = 0.5 + (0.5 * progress)
               in initial_anim\<lparr>globalAlpha := progress, scaleFactorXY := scale\<rparr>)
            else if selectedAnimation = ''bounce'' then
              (let progress = progress_of elapsed bounceDuration;
                   alpha = (if progress < 0.3 then progress / 0.3 else globalAlpha initial_anim);
                   yOffset = bounce_yOffset progress;
                   scaleFactor = height / 1000
               in initial_anim\<lparr>globalAlpha := alpha, translateY := yOffset * scaleFactor * 50\<rparr>)
            else if selectedAnimation = ''glow'' then
              (let pulse = (sin (elapsed * 4) + 1) / 2
               in initial_anim\<lparr>shadowBlur := (5 + (pulse * 15)) * (height / 1000)\<rparr>)
            else if selectedAnimation = ''shake'' then
              (let progress = progress_of elapsed shakeDuration
               in if progress < 1 then
                    (let intensity = 5 * (1 - progress);
                         xOff = sin (progress * 50) * intensity * (width / 1000)
                     in initial_anim\<lparr>translateX := xOff * 5\<rparr>)
                  else initial_anim)
            else initial_anim)
      else initial_anim)"

section \<open>Frame-accurate export: the frame loop of handleFastExport\<close>







section \<open>Component state: captions, style and the layout cache\<close>

text \<open>\<^verbatim>\<open>CaptionSegment\<close>.\<close>

record caption_segment =
  seg_id :: int
  startTime :: string
  endTime :: string
  seg_text :: string

text \<open>
  The part of the component's state the layout depends on: the captions, the style
  parameters the cache-invalidation effect lists as its dependencies, and the cache
  \<^verbatim>\<open>textLayoutCache.current\<close>.
\<close>

record view_state =
  captions :: "caption_segment list"
  selectedFont :: string
  fontSize :: real
  visualMaxWords :: nat
  textLayoutCache :: layout_cache

text \<open>
  The effect \<^verbatim>\<open>useEffect(() => { textLayoutCache.current = {} }, [selectedFont, fontSize,
  visualMaxWords])\<close>: after a render in which one of the three dependencies differs from
  its value at the previous render, the cache is replaced by an empty object.
\<close>

definition invalidate_on_style :: "view_state \<Rightarrow> view_state \<Rightarrow> view_state" where
  "invalidate_on_style prev st =
     (if selectedFont st \<noteq> selectedFont prev \<or> fontSize st \<noteq> fontSize prev \<or>
         visualMaxWords st \<noteq> visualMaxWords prev
      then st\<lparr>textLayoutCache := Map.empty\<rparr> else st)"

text \<open>The three setters, each followed by the render and its effect.\<close>

definition setSelectedFont :: "string \<Rightarrow> view_state \<Rightarrow> view_state" where
  "setSelectedFont f st = invalidate_on_style st (st\<lparr>selectedFont := f\<rparr>)"

definition setFontSize :: "real \<Rightarrow> view_state \<Rightarrow> view_state" where
  "setFontSize s st = invalidate_on_style st (st\<lparr>fontSize := s\<rparr>)"

definition setVisualMaxWords :: "nat \<Rightarrow> view_state \<Rightarrow> view_state" where
  "setVisualMaxWords n st = invalidate_on_style st (st\<lparr>visualMaxWords := n\<rparr>)"

text \<open>
  \<^verbatim>\<open>handleCaptionChange(id, newText)\<close>: every caption with this id gets the new text, and
  \<^verbatim>\<open>delete textLayoutCache.current[id]\<close> removes the cache entry of this id.
\<close>

definition handleCaptionChange :: "int \<Rightarrow> string \<Rightarrow> view_state \<Rightarrow> view_state" where
  "handleCaptionChange cid newText st =
     st\<lparr>captions := map (\<lambda>c. if seg_id c = cid then c\<lparr>seg_text := newText\<rparr> else c) (captions st),
        textLayoutCache := (textLayoutCache st)(cid := None)\<rparr>"

text \<open>
  A cache is fresh when every entry that a caption of the set would be served is the
  layout of that caption's current text under the current word limit, for the measure
  function and the width in force.
\<close>

definition cache_fresh :: "(string \<Rightarrow> real) \<Rightarrow> real \<Rightarrow> view_state \<Rightarrow> bool" where
  "cache_fresh measureText maxWidth st =
     list_all (\<lambda>c. case textLayoutCache st (seg_id c) of
                       None \<Rightarrow> True
                     | Some ls \<Rightarrow> ls = computeLines measureText (visualMaxWords st) (seg_text c) maxWidth)
       (captions st)"

text \<open>An example state: two captions, both with their layout in the cache.\<close>

definition example_state :: view_state where
  "example_state =
     \<lparr>captions =
        [\<lparr>seg_id = 1, startTime = ''00:00:01,000'', endTime = ''00:00:02,000'', seg_text = ''hello there''\<rparr>,
         \<lparr>seg_id = 2, startTime = ''00:00:03,000'', endTime = ''00:00:04,000'', seg_text = ''friend''\<rparr>],
      selectedFont = ''Inter'', fontSize = 5, visualMaxWords = 100,
      textLayoutCache = [1 \<mapsto> [''hello there''], 2 \<mapsto> [''friend'']]\<rparr>"

section \<open>Export control: the exporting flag and the jobs in flight\<close>

text \<open>
  The export handlers are asynchronous; between their suspension points the component sees
  events. The state records the flag \<^verbatim>\<open>isExporting\<close>, the number of frame-accurate jobs
  that have started and not reached their \<^verbatim>\<open>finally\<close> block, and the number of media
  recorders started by \<^verbatim>\<open>handleRealtimeExport\<close> and not stopped.
\<close>

record export_state =
  isExporting :: bool
  fastJobs :: nat
  recorders :: nat

definition idle :: export_state where
  "idle = \<lparr>isExporting = False, fastJobs = 0, recorders = 0\<rparr>"

text \<open>
  \<^verbatim>\<open>handleRealtimeExport\<close> up to its first suspension (\<^verbatim>\<open>await video.play()\<close>): the flag is
  set and the recorder is started.
\<close>

definition handleRealtimeExport :: "export_state \<Rightarrow> export_state" where
  "handleRealtimeExport st = st\<lparr>isExporting := True, recorders := recorders st + 1\<rparr>"

text \<open>
  \<^verbatim>\<open>handleFastExport\<close> up to its first suspension. Without \<^verbatim>\<open>VideoEncoder\<close> it calls
  \<^verbatim>\<open>handleRealtimeExport\<close> and returns; otherwise it sets the flag and the job runs.
\<close>

definition handleFastExport :: "bool \<Rightarrow> export_state \<Rightarrow> export_state" where
  "handleFastExport hasVideoEncoder st =
     (if \<not> hasVideoEncoder then handleRealtimeExport st
      else st\<lparr>isExporting := True, fastJobs := fastJobs st + 1\<rparr>)"

text \<open>
  The end of a frame-accurate job. When the \<^verbatim>\<open>try\<close> block threw, the \<^verbatim>\<open>catch\<close> block calls
  \<^verbatim>\<open>handleRealtimeExport()\<close> without awaiting it; in both cases the \<^verbatim>\<open>finally\<close> block then
  runs \<^verbatim>\<open>setIsExporting(false)\<close>.
\<close>

definition fastExportSettled :: "bool \<Rightarrow> export_state \<Rightarrow> export_state" where
  "fastExportSettled threw st =
     (let st1 = (if threw then handleRealtimeExport st else st)
      in st1\<lparr>isExporting := False, fastJobs := fastJobs st1 - 1\<rparr>)"

text \<open>\<^verbatim>\<open>mediaRecorder.onstop\<close>: the recording is over and the flag is cleared.\<close>

definition recorderStopped :: "export_state \<Rightarrow> export_state" where
  "recorderStopped st = st\<lparr>isExporting := False, recorders := recorders st - 1\<rparr>"

text \<open>
  The events: a click on the Export Video button (with whether the browser has
  \<^verbatim>\<open>VideoEncoder\<close>), the end of a frame-accurate job (with whether it threw), and the stop of
  a recorder. The button is rendered with \<^verbatim>\<open>disabled={isExporting}\<close>, so a click while the
  flag is set reaches no handler; the other two events need a job of their kind.
\<close>

datatype export_event = ClickExport bool | FastSettled bool | RecorderStopped

fun fire :: "export_state \<Rightarrow> export_event \<Rightarrow> export_state" where
  "fire st (ClickExport hasVideoEncoder) =
     (if isExporting st then st else handleFastExport hasVideoEncoder st)"
| "fire st (FastSettled threw) = (if fastJobs st = 0 then st else fastExportSettled threw st)"
| "fire st RecorderStopped = (if recorders st = 0 then st else recorderStopped st)"

definition run_events :: "export_event list \<Rightarrow> export_state" where
  "run_events evs = foldl fire idle evs"

definition jobs_in_flight :: "export_state \<Rightarrow> nat" where
  "jobs_in_flight st = fastJobs st + recorders st"

section \<open>Timed text: parseSRT, generateSRT and parseTime\<close>

text \<open>
  The characters \<^verbatim>\<open>trim\<close> and \<^verbatim>\<open>parseInt\<close> skip, among the 8-bit code units: tab, line
  feed, vertical tab, form feed, carriage return, space and no-break space.
\<close>

definition is_space :: "char \<Rightarrow> bool" where
  "is_space c = (c = CHR 0x09 \<or> c = LF \<or> c = CHR 0x0B \<or> c = CHR 0x0C \<or> c = CR \<or> c = SP \<or> c = CHR 0xA0)"

definition trim :: "string \<Rightarrow> string" where
  "trim s = rev (dropWhile is_space (rev (dropWhile is_space s)))"

text \<open>\<^verbatim>\<open>srt.replace(/\r\n/g, '\n')\<close>.\<close>

fun normalize_newlines :: "string \<Rightarrow> string" where
  "normalize_newlines (c # d # cs) =
     (if c = CR \<and> d = LF then LF # normalize_newlines cs else c # normalize_newlines (d # cs))"
| "normalize_newlines cs = cs"

text \<open>
  \<^verbatim>\<open>parseInt(s)\<close> with no radix: leading white space is skipped, a sign is read, a prefix
  \<^verbatim>\<open>0x\<close> or \<^verbatim>\<open>0X\<close> selects radix 16, and the longest run of digits of the radix is the
  number; anything behind it is ignored. With no digit the result is \<^verbatim>\<open>NaN\<close>, here \<open>None\<close>.
\<close>

definition digit_value :: "char \<Rightarrow> nat" where
  "digit_value c =
     (let n = (of_char c :: nat) in
      if 48 \<le> n \<and> n \<le> 57 then n - 48
      else if 97 \<le> n \<and> n \<le> 102 then n - 87
      else if 65 \<le> n \<and> n \<le> 70 then n - 55
      else 99)"

definition is_digit_of :: "nat \<Rightarrow> char \<Rightarrow> bool" where
  "is_digit_of radix c = (digit_value c < radix)"

definition digits_value :: "nat \<Rightarrow> string \<Rightarrow> nat" where
  "digits_value radix ds = foldl (\<lambda>acc c. acc * radix + digit_value c) 0 ds"

definition parseInt :: "string \<Rightarrow> int option" where
  "parseInt s =
     (let s1 = dropWhile is_space s;
          sign = (if take 1 s1 = ''-'' then -1 else 1);
          s2 = (if take 1 s1 = ''-'' \<or> take 1 s1 = ''+'' then drop 1 s1 else s1);
          radix = (if take 2 s2 = ''0x'' \<or> take 2 s2 = ''0X'' then 16 else 10);
          s3 = (if radix = 16 then drop 2 s2 else s2);
          z = takeWhile (is_digit_of radix) s3
      in if z = [] then None else Some (sign * int (digits_value radix z)))"

text \<open>The decimal text of an integer, as a template literal prints a caption id.\<close>

function show_nat :: "nat \<Rightarrow> string" where
  "show_nat n = (if n < 10 then [char_of (48 + n)] else show_nat (n div 10) @ [char_of (48 + n mod 10)])"
  by pat_completeness auto
termination
  by (relation "measure (\<lambda>n. n)") auto

declare show_nat.simps [simp del]

definition show_int :: "int \<Rightarrow> string" where
  "show_int i = (if i < 0 then CHR ''-'' # show_nat (nat (- i)) else show_nat (nat i))"

text \<open>
  The body of the \<^verbatim>\<open>forEach\<close> callback of \<^verbatim>\<open>parseSRT\<close>: the segment a block pushes, if it
  pushes one. \<^verbatim>\<open>lines[0]\<close>, \<^verbatim>\<open>lines[1]\<close> and \<^verbatim>\<open>lines.slice(2)\<close> exist when there are three
  lines; \<^verbatim>\<open>start\<close> is the first piece of the time line and \<^verbatim>\<open>end\<close> the second, undefined
  when there is none; an empty string and undefined are both falsy. No step can throw:
  the indices are guarded by the length test, and \<^verbatim>\<open>trim\<close> is called on non-empty strings
  only.
\<close>

definition parseBlock :: "string \<Rightarrow> caption_segment option" where
  "parseBlock block =
     (case split_str [LF] block of
        l0 # timeLine # l2 # rest \<Rightarrow>
          (let id = parseInt l0;
               text' = join_str [SP] (l2 # rest)
           in case split_str '' --> '' timeLine of
                start # end' # others \<Rightarrow>
                  (case id of
                     Some n \<Rightarrow>
                       if start \<noteq> [] \<and> end' \<noteq> []
                       then Some \<lparr>seg_id = n, startTime = trim start, endTime = trim end',
                                  seg_text = trim text'\<rparr>
                       else None
                   | None \<Rightarrow> None)
              | _ \<Rightarrow> None)
      | _ \<Rightarrow> None)"

definition srt_blocks :: "string \<Rightarrow> string list" where
  "srt_blocks srt = split_str [LF, LF] (normalize_newlines srt)"

definition parseSRT :: "string \<Rightarrow> caption_segment list" where
  "parseSRT srt =
     foldl (\<lambda>segments block. case parseBlock block of None \<Rightarrow> segments | Some s \<Rightarrow> segments @ [s])
       [] (srt_blocks srt)"

definition render_segment :: "caption_segment \<Rightarrow> string" where
  "render_segment s = show_int (seg_id s) @ [LF] @ startTime s @ '' --> '' @ endTime s @ [LF] @ seg_text s"

definition generateSRT :: "caption_segment list \<Rightarrow> string" where
  "generateSRT segments = join_str [LF, LF] (map render_segment segments)"

text \<open>\<^verbatim>\<open>s.replace(',', '.')\<close> with a string pattern replaces the first occurrence only.\<close>

fun replace_first :: "char \<Rightarrow> char \<Rightarrow> string \<Rightarrow> string" where
  "replace_first a b [] = []"
| "replace_first a b (c # cs) = (if c = a then b # cs else c # replace_first a b cs)"

text \<open>
  \<^verbatim>\<open>parseTime\<close>. The built-in \<^verbatim>\<open>parseFloat\<close> is a parameter: a function from the string to
  the number read.
\<close>

definition parseTime :: "(string \<Rightarrow> real) \<Rightarrow> string \<Rightarrow> real" where
  "parseTime parseFloat timeString =
     (if timeString = [] then 0
      else case split_str '':'' (replace_first (CHR '','') (CHR ''.'') timeString) of
             p0 # p1 # p2 # others \<Rightarrow>
               (let h = parseFloat p0; m = parseFloat p1; s = parseFloat p2
                in (h * 3600) + (m * 60) + s)
           | _ \<Rightarrow> 0)"

subsection \<open>Notions used to state the timed-text properties\<close>














definition srt_dots :: string where
  "srt_dots = ''1'' @ [LF] @ ''00:00:01.000 --> 00:00:02.500'' @ [LF] @ ''hi''"


section \<open>Properties of the layout engine\<close>

subsection \<open>Splitting and joining\<close>

lemma split_str_nonempty [simp]: "split_str sep s \<noteq> []"
  by (induction sep s rule: split_str.induct) (auto split: list.splits)

lemma split_char_Cons:
  "split_str [c] (x # xs) =
     (if x = c then [] # split_str [c] xs
      else (case split_str [c] xs of [] \<Rightarrow> [[x]] | w # ws \<Rightarrow> (x # w) # ws))"
  by simp

lemma join_split_char: "join_str [c] (split_str [c] s) = s"
proof (induction s)
  case Nil
  show ?case by simp
next
  case (Cons x xs)
  obtain w ws where r: "split_str [c] xs = w # ws"
    by (cases "split_str [c] xs") auto
  show ?case
  proof (cases "x = c")
    case True
    with Cons r show ?thesis by simp
  next
    case False
    with Cons r show ?thesis by (cases ws) auto
  qed
qed

lemma split_char_no_sep: "w \<in> set (split_str [c] s) \<Longrightarrow> c \<notin> set w"
proof (induction s arbitrary: w)
  case Nil
  then show ?case by simp
next
  case (Cons x xs)
  obtain v vs where r: "split_str [c] xs = v # vs"
    by (cases "split_str [c] xs") auto
  show ?case
  proof (cases "x = c")
    case True
    with Cons show ?thesis by auto
  next
    case False
    with Cons r show ?thesis by auto
  qed
qed

lemma split_char_word: "c \<notin> set w \<Longrightarrow> split_str [c] w = [w]"
  by (induction w) auto

lemma split_char_append:
  "c \<notin> set w \<Longrightarrow> split_str [c] (w @ c # s) = w # split_str [c] s"
  by (induction w) auto

lemma split_join_char:
  "ws \<noteq> [] \<Longrightarrow> \<forall>w\<in>set ws. c \<notin> set w \<Longrightarrow> split_str [c] (join_str [c] ws) = ws"
proof (induction ws)
  case Nil then show ?case by simp
next
  case (Cons x ys)
  then show ?case by (cases ys) (simp_all add: split_char_word split_char_append)
qed

lemma join_str_append:
  "xs \<noteq> [] \<Longrightarrow> ys \<noteq> [] \<Longrightarrow> join_str sep (xs @ ys) = join_str sep xs @ sep @ join_str sep ys"
  by (induction sep xs rule: join_str.induct) (auto simp: neq_Nil_conv)

lemma join_take_drop:
  "0 < b \<Longrightarrow> b < length ws \<Longrightarrow>
   join_str sep (take b ws) @ sep @ join_str sep (drop b ws) = join_str sep ws"
proof -
  assume b: "0 < b" "b < length ws"
  then have "take b ws \<noteq> []" "drop b ws \<noteq> []" by auto
  from join_str_append[OF this, of sep] show ?thesis by simp
qed

subsection \<open>Widths of word ranges\<close>

lemma foldl_add_nth:
  "e \<le> length xs \<Longrightarrow>
   foldl (\<lambda>width i. width + xs ! i) a [s..<e] = a + sum_list (take (e - s) (drop s xs))"
proof (induction "e - s" arbitrary: s a)
  case 0
  then show ?case by simp
next
  case (Suc k)
  then have s: "s < e" "s < length xs" by auto
  have d: "drop s xs = xs ! s # drop (Suc s) xs"
    using s by (simp add: Cons_nth_drop_Suc)
  have "e - s = Suc (e - Suc s)" using s by simp
  with Suc.hyps(1)[of "Suc s" "a + xs ! s"] Suc.prems Suc.hyps(2) s d
  show ?case by (simp add: upt_conv_Cons add.assoc)
qed

lemma getRangeWidth_group:
  "s \<le> e \<Longrightarrow> e \<le> length ws \<Longrightarrow>
   getRangeWidth (map measureText ws) (measureText [SP]) s e =
     (if s = e then 0 else group_width measureText (take (e - s) (drop s ws)))"
  by (auto simp: getRangeWidth_def group_width_def foldl_add_nth take_map drop_map
      of_nat_diff max_def)

subsection \<open>The search for the balanced split\<close>

lemma split_step_cases:
  "split_step ww sw n mw vm st i =
     (if split_ok ww sw n mw vm i \<and> (case snd st of None \<Rightarrow> True | Some m \<Rightarrow> range_diff ww sw n i < m)
      then (int i, Some (range_diff ww sw n i)) else st)"
  unfolding split_step_def split_ok_def range_diff_def Let_def
  by (auto split: option.splits)

lemma split_loop_inv:
  "foldl (split_step ww sw n mw vm) (-1, None) L = (b, md) \<Longrightarrow>
   (if \<exists>i\<in>set L. split_ok ww sw n mw vm i
    then \<exists>j\<in>set L. b = int j \<and> split_ok ww sw n mw vm j \<and> md = Some (range_diff ww sw n j) \<and>
           (\<forall>i\<in>set L. split_ok ww sw n mw vm i \<longrightarrow> range_diff ww sw n j \<le> range_diff ww sw n i)
    else b = -1 \<and> md = None)"
proof (induction L arbitrary: b md rule: rev_induct)
  case Nil
  then show ?case by simp
next
  case (snoc x xs)
  obtain b0 md0 where st: "foldl (split_step ww sw n mw vm) (-1, None) xs = (b0, md0)"
    by (cases "foldl (split_step ww sw n mw vm) (-1, None) xs") auto
  note ih = snoc.IH[OF st]
  from snoc.prems st have res: "split_step ww sw n mw vm (b0, md0) x = (b, md)" by simp
  show ?case
  proof (cases "\<exists>i\<in>set xs. split_ok ww sw n mw vm i")
    case True
    with ih obtain j where j: "j \<in> set xs" "b0 = int j" "split_ok ww sw n mw vm j"
      "md0 = Some (range_diff ww sw n j)"
      "\<forall>i\<in>set xs. split_ok ww sw n mw vm i \<longrightarrow> range_diff ww sw n j \<le> range_diff ww sw n i"
      by auto
    show ?thesis
    proof (cases "split_ok ww sw n mw vm x \<and> range_diff ww sw n x < range_diff ww sw n j")
      case True
      with res j have bm: "b = int x" "md = Some (range_diff ww sw n x)"
        by (auto simp: split_step_cases)
      have opt: "\<forall>i\<in>set (xs @ [x]). split_ok ww sw n mw vm i \<longrightarrow>
                   range_diff ww sw n x \<le> range_diff ww sw n i"
        using True j(5) by fastforce
      have "x \<in> set (xs @ [x])" by simp
      with True opt bm show ?thesis by auto
    next
      case False
      with res j have bm: "b = int j" "md = Some (range_diff ww sw n j)"
        by (auto simp: split_step_cases)
      have opt: "\<forall>i\<in>set (xs @ [x]). split_ok ww sw n mw vm i \<longrightarrow>
                   range_diff ww sw n j \<le> range_diff ww sw n i"
        using False j(5) by (auto simp: not_less)
      have "j \<in> set (xs @ [x])" using j(1) by simp
      with j(3) opt bm show ?thesis by auto
    qed
  next
    case False
    with ih have e: "b0 = -1" "md0 = None" by auto
    show ?thesis
    proof (cases "split_ok ww sw n mw vm x")
      case True
      with res e have "b = int x" "md = Some (range_diff ww sw n x)"
        by (auto simp: split_step_cases)
      with True False show ?thesis by auto
    next
      case False
      with res e have "b = -1" "md = None" by (auto simp: split_step_cases)
      with False \<open>\<not> (\<exists>i\<in>set xs. split_ok ww sw n mw vm i)\<close> show ?thesis by auto
    qed
  qed
qed

lemma findBestSplit_none:
  "\<not> (\<exists>i. 1 \<le> i \<and> i < n \<and> split_ok ww sw n mw vm i) \<Longrightarrow> findBestSplit ww sw n mw vm = -1"
proof -
  assume a: "\<not> (\<exists>i. 1 \<le> i \<and> i < n \<and> split_ok ww sw n mw vm i)"
  obtain b md where st: "foldl (split_step ww sw n mw vm) (-1, None) [1..<n] = (b, md)"
    by (cases "foldl (split_step ww sw n mw vm) (-1, None) [1..<n]") auto
  from a have "\<not> (\<exists>i\<in>set [1..<n]. split_ok ww sw n mw vm i)" by auto
  with split_loop_inv[OF st] have "b = -1" by auto
  with st show ?thesis by (simp add: findBestSplit_def)
qed

lemma findBestSplit_some:
  assumes "\<exists>i. 1 \<le> i \<and> i < n \<and> split_ok ww sw n mw vm i"
  shows "\<exists>j. findBestSplit ww sw n mw vm = int j \<and> 1 \<le> j \<and> j < n \<and> split_ok ww sw n mw vm j \<and>
           (\<forall>i. 1 \<le> i \<and> i < n \<and> split_ok ww sw n mw vm i \<longrightarrow>
                range_diff ww sw n j \<le> range_diff ww sw n i)"
proof -
  obtain b md where st: "foldl (split_step ww sw n mw vm) (-1, None) [1..<n] = (b, md)"
    by (cases "foldl (split_step ww sw n mw vm) (-1, None) [1..<n]") auto
  from assms have "\<exists>i\<in>set [1..<n]. split_ok ww sw n mw vm i" by auto
  with split_loop_inv[OF st] obtain j where j: "j \<in> set [1..<n]" "b = int j"
    "split_ok ww sw n mw vm j"
    "\<forall>i\<in>set [1..<n]. split_ok ww sw n mw vm i \<longrightarrow> range_diff ww sw n j \<le> range_diff ww sw n i"
    by auto
  from st j(2) have "findBestSplit ww sw n mw vm = int j" by (simp add: findBestSplit_def)
  with j show ?thesis by auto
qed

subsection \<open>The greedy loop\<close>

lemma group_width_snoc:
  "cur \<noteq> [] \<Longrightarrow>
   group_width measureText (cur @ [w]) = group_width measureText cur + measureText [SP] + measureText w"
  by (cases cur) (auto simp: group_width_def algebra_simps)

lemma group_width_single [simp]: "group_width measureText [w] = measureText w"
  by (simp add: group_width_def)

lemma greedy_step_words:
  "greedy_step sw mw vm (ls, cur, cw) (w, x) = (ls', cur', cw') \<Longrightarrow>
   (ls' = ls \<and> cur' = cur @ [w]) \<or> (cur \<noteq> [] \<and> ls' = ls @ [join_str [SP] cur] \<and> cur' = [w])"
  by (auto simp: greedy_step_def Let_def split: if_splits)

lemma greedy_step_ok:
  assumes "greedy_step (measureText [SP]) mw vm (ls, cur, cw) (w, measureText w) = (ls', cur', cw')"
    and "1 \<le> vm" and "current_ok measureText mw vm cur cw"
  shows "current_ok measureText mw vm cur' cw'"
  using assms
  by (auto simp: greedy_step_def Let_def current_ok_def group_ok_def group_width_snoc
      split: if_splits)

lemma greedy_loop_inv:
  "foldl (greedy_step (measureText [SP]) mw vm) (ls, cur, cw) (map (\<lambda>w. (w, measureText w)) ws)
     = (ls', cur', cw') \<Longrightarrow>
   \<exists>gs. ls' = ls @ map (join_str [SP]) gs \<and> (\<forall>g\<in>set gs. g \<noteq> []) \<and>
        concat gs @ cur' = cur @ ws \<and>
        (1 \<le> vm \<and> current_ok measureText mw vm cur cw \<longrightarrow>
           (\<forall>g\<in>set gs. group_ok measureText mw vm g) \<and> current_ok measureText mw vm cur' cw')"
proof (induction ws arbitrary: ls cur cw)
  case Nil
  then show ?case by auto
next
  case (Cons w ws)
  obtain ls1 cur1 cw1 where st:
    "greedy_step (measureText [SP]) mw vm (ls, cur, cw) (w, measureText w) = (ls1, cur1, cw1)"
    by (cases "greedy_step (measureText [SP]) mw vm (ls, cur, cw) (w, measureText w)") auto
  with Cons.prems have
    "foldl (greedy_step (measureText [SP]) mw vm) (ls1, cur1, cw1) (map (\<lambda>w. (w, measureText w)) ws)
       = (ls', cur', cw')" by simp
  from Cons.IH[OF this] obtain gs where gs:
    "ls' = ls1 @ map (join_str [SP]) gs" "\<forall>g\<in>set gs. g \<noteq> []"
    "concat gs @ cur' = cur1 @ ws"
    "1 \<le> vm \<and> current_ok measureText mw vm cur1 cw1 \<longrightarrow>
       (\<forall>g\<in>set gs. group_ok measureText mw vm g) \<and> current_ok measureText mw vm cur' cw'"
    by blast
  have ok1: "1 \<le> vm \<and> current_ok measureText mw vm cur cw \<Longrightarrow> current_ok measureText mw vm cur1 cw1"
    using greedy_step_ok[OF st] by simp
  have imp: "1 \<le> vm \<and> current_ok measureText mw vm cur cw \<Longrightarrow>
       (\<forall>g\<in>set gs. group_ok measureText mw vm g) \<and> current_ok measureText mw vm cur' cw'"
    using gs(4) ok1 by blast
  from greedy_step_words[OF st] show ?case
  proof
    assume a: "ls1 = ls \<and> cur1 = cur @ [w]"
    have "ls' = ls @ map (join_str [SP]) gs" using a gs(1) by simp
    moreover have "concat gs @ cur' = cur @ w # ws" using a gs(3) by simp
    ultimately show ?thesis using gs(2) imp by blast
  next
    assume a: "cur \<noteq> [] \<and> ls1 = ls @ [join_str [SP] cur] \<and> cur1 = [w]"
    have 1: "ls' = ls @ map (join_str [SP]) (cur # gs)" using a gs(1) by simp
    have 2: "concat (cur # gs) @ cur' = cur @ w # ws" using a gs(3) by simp
    have 3: "\<forall>g\<in>set (cur # gs). g \<noteq> []" using a gs(2) by simp
    have 4: "1 \<le> vm \<and> current_ok measureText mw vm cur cw \<longrightarrow>
       (\<forall>g\<in>set (cur # gs). group_ok measureText mw vm g) \<and> current_ok measureText mw vm cur' cw'"
      using imp a by (simp add: current_ok_def)
    from 1 2 3 4 show ?thesis by blast
  qed
qed

lemma zip_map_same: "zip ws (map f ws) = map (\<lambda>w. (w, f w)) ws"
  by (induction ws) auto

lemma greedyWrap_groups:
  "\<exists>gs. greedyWrap (measureText [SP]) mw vm ws (map measureText ws) = map (join_str [SP]) gs \<and>
        (\<forall>g\<in>set gs. g \<noteq> []) \<and> concat gs = ws \<and>
        (1 \<le> vm \<longrightarrow> (\<forall>g\<in>set gs. group_ok measureText mw vm g))"
proof -
  obtain ls' cur' cw' where st:
    "foldl (greedy_step (measureText [SP]) mw vm) ([], [], 0) (map (\<lambda>w. (w, measureText w)) ws)
       = (ls', cur', cw')"
    by (cases "foldl (greedy_step (measureText [SP]) mw vm) ([], [], 0) (map (\<lambda>w. (w, measureText w)) ws)") auto
  from greedy_loop_inv[OF st] obtain gs where gs:
    "ls' = map (join_str [SP]) gs" "\<forall>g\<in>set gs. g \<noteq> []" "concat gs @ cur' = ws"
    "1 \<le> vm \<longrightarrow> (\<forall>g\<in>set gs. group_ok measureText mw vm g) \<and> current_ok measureText mw vm cur' cw'"
    by (auto simp: current_ok_def)
  have res: "greedyWrap (measureText [SP]) mw vm ws (map measureText ws) =
               (if cur' \<noteq> [] then ls' @ [join_str [SP] cur'] else ls')"
    using st by (simp add: greedyWrap_def zip_map_same)
  show ?thesis
  proof (cases "cur' = []")
    case True
    with res gs show ?thesis by (intro exI[of _ gs]) auto
  next
    case False
    with res gs show ?thesis
      by (intro exI[of _ "gs @ [cur']"]) (auto simp: current_ok_def)
  qed
qed

subsection \<open>The three branches\<close>

lemma line_words_join:
  "g \<noteq> [] \<Longrightarrow> \<forall>w\<in>set g. SP \<notin> set w \<Longrightarrow> line_words (join_str [SP] g) = g"
  by (simp add: line_words_def split_join_char)


lemma range_take:
  "1 \<le> j \<Longrightarrow> j < length ws \<Longrightarrow>
   getRangeWidth (map measureText ws) (measureText [SP]) 0 j = group_width measureText (take j ws)"
  using getRangeWidth_group[of 0 j ws measureText] by simp

lemma range_drop:
  "1 \<le> j \<Longrightarrow> j < length ws \<Longrightarrow>
   getRangeWidth (map measureText ws) (measureText [SP]) j (length ws) = group_width measureText (drop j ws)"
  using getRangeWidth_group[of j "length ws" ws measureText] by simp

lemma range_all:
  "ws \<noteq> [] \<Longrightarrow>
   getRangeWidth (map measureText ws) (measureText [SP]) 0 (length ws) = group_width measureText ws"
  using getRangeWidth_group[of 0 "length ws" ws measureText] by simp

lemma computeLines_cases:
  "computeLines measureText vm t mw =
     (let ws = split_str [SP] t; ww = map measureText ws; sw = measureText [SP]; n = length ws in
      if getRangeWidth ww sw 0 n \<le> mw \<and> n \<le> vm then [t]
      else if findBestSplit ww sw n mw vm \<noteq> -1
        then [join_str [SP] (take (nat (findBestSplit ww sw n mw vm)) ws),
              join_str [SP] (drop (nat (findBestSplit ww sw n mw vm)) ws)]
        else greedyWrap sw mw vm ws ww)"
  by (simp add: computeLines_def Let_def)

lemma computeLines_groups:
  "\<exists>gs. computeLines measureText vm t mw = map (join_str [SP]) gs \<and>
        (\<forall>g\<in>set gs. g \<noteq> []) \<and> concat gs = split_str [SP] t \<and>
        (1 \<le> vm \<longrightarrow> (\<forall>g\<in>set gs. group_ok measureText mw vm g))"
proof -
  define ws where "ws = split_str [SP] t"
  define ww where "ww = map measureText ws"
  define sw where "sw = measureText [SP]"
  define n where "n = length ws"
  have ne: "ws \<noteq> []" by (simp add: ws_def)
  have t: "join_str [SP] ws = t" by (simp add: ws_def join_split_char)
  consider (single) "getRangeWidth ww sw 0 n \<le> mw \<and> n \<le> vm"
    | (two) "\<not> (getRangeWidth ww sw 0 n \<le> mw \<and> n \<le> vm)" "findBestSplit ww sw n mw vm \<noteq> -1"
    | (greedy) "\<not> (getRangeWidth ww sw 0 n \<le> mw \<and> n \<le> vm)" "findBestSplit ww sw n mw vm = -1"
    by blast
  then show ?thesis
  proof cases
    case single
    then have r: "computeLines measureText vm t mw = [t]"
      by (simp add: computeLines_cases Let_def ws_def ww_def sw_def n_def)
    have "group_ok measureText mw vm ws"
      using single range_all[OF ne, of measureText]
      by (simp add: group_ok_def ww_def sw_def n_def)
    with r t ne show ?thesis
      by (intro exI[of _ "[ws]"]) (simp add: ws_def[symmetric])
  next
    case two
    then have "\<exists>i. 1 \<le> i \<and> i < n \<and> split_ok ww sw n mw vm i"
      using findBestSplit_none[of n ww sw mw vm] by blast
    from findBestSplit_some[OF this] obtain j where j:
      "findBestSplit ww sw n mw vm = int j" "1 \<le> j" "j < n" "split_ok ww sw n mw vm j"
      by blast
    have r: "computeLines measureText vm t mw =
               [join_str [SP] (take j ws), join_str [SP] (drop j ws)]"
      using two j(1) by (auto simp add: computeLines_cases Let_def ws_def ww_def sw_def n_def)
    have g1: "group_ok measureText mw vm (take j ws)"
      using j range_take[of j ws measureText]
      by (simp add: group_ok_def split_ok_def ww_def sw_def n_def)
    have g2: "group_ok measureText mw vm (drop j ws)"
      using j range_drop[of j ws measureText]
      by (simp add: group_ok_def split_ok_def ww_def sw_def n_def)
    have "take j ws \<noteq> []" "drop j ws \<noteq> []" using j by (auto simp: n_def)
    with r g1 g2 show ?thesis
      by (intro exI[of _ "[take j ws, drop j ws]"]) (simp add: ws_def[symmetric])
  next
    case greedy
    then have r: "computeLines measureText vm t mw = greedyWrap sw mw vm ws ww"
      by (auto simp add: computeLines_cases Let_def ws_def ww_def sw_def n_def)
    from greedyWrap_groups[of measureText mw vm ws] r show ?thesis
      by (simp add: ws_def[symmetric] ww_def sw_def)
  qed
qed

lemma join_concat_groups:
  "\<forall>g\<in>set gs. g \<noteq> [] \<Longrightarrow> join_str sep (map (join_str sep) gs) = join_str sep (concat gs)"
proof (induction gs)
  case Nil
  then show ?case by simp
next
  case (Cons g gs)
  show ?case
  proof (cases gs)
    case Nil
    then show ?thesis by simp
  next
    case (Cons h hs)
    with Cons.prems have "g \<noteq> []" "concat gs \<noteq> []" by auto
    from join_str_append[OF this, of sep] Cons.IH Cons.prems Cons show ?thesis by simp
  qed
qed

lemma getWrappedLines_cold:
  "cache captionId = None \<Longrightarrow>
   getWrappedLines measureText vm cache t mw captionId =
     (computeLines measureText vm t mw, cache(captionId \<mapsto> computeLines measureText vm t mw))"
  by (simp add: getWrappedLines_def Let_def)






subsection \<open>The claims about the layout\<close>





text \<open>
  Claim C10. On a cold cache the lines returned by \<open>getWrappedLines\<close>, joined with single
  spaces, are the input text, and their words, in order, are the words of the input: no
  word is dropped, duplicated, reordered or cut in any of the three branches.
\<close>

theorem layout_preserves_words:
  assumes "cache captionId = None"
  shows "join_str [SP] (fst (getWrappedLines measureText maxWords cache text' maxWidth captionId)) = text'
       \<and> concat (map line_words (fst (getWrappedLines measureText maxWords cache text' maxWidth captionId)))
           = line_words text'"
proof -
  from computeLines_groups[of measureText maxWords text' maxWidth]
  obtain gs where gs: "computeLines measureText maxWords text' maxWidth = map (join_str [SP]) gs"
    "\<forall>g\<in>set gs. g \<noteq> []" "concat gs = split_str [SP] text'"
    by blast
  have lines: "fst (getWrappedLines measureText maxWords cache text' maxWidth captionId)
                 = map (join_str [SP]) gs"
    using assms gs(1) by (simp add: getWrappedLines_cold)
  have "join_str [SP] (map (join_str [SP]) gs) = join_str [SP] (concat gs)"
    using gs(2) by (rule join_concat_groups)
  then have a: "join_str [SP] (map (join_str [SP]) gs) = text'"
    by (simp add: gs(3) join_split_char)
  have "\<And>g. g \<in> set gs \<Longrightarrow> line_words (join_str [SP] g) = g"
  proof -
    fix g assume g: "g \<in> set gs"
    then have "set g \<subseteq> set (concat gs)" by auto
    then have "\<forall>w\<in>set g. SP \<notin> set w"
      using split_char_no_sep[of _ SP text'] gs(3) by auto
    with g gs(2) show "line_words (join_str [SP] g) = g" by (simp add: line_words_join)
  qed
  then have "map line_words (map (join_str [SP]) gs) = gs"
    by (simp add: map_idI)
  then have b: "concat (map line_words (map (join_str [SP]) gs)) = line_words text'"
    by (simp add: gs(3) line_words_def)
  from a b lines show ?thesis by simp
qed

theorem layout_preserves_words_witness:
  "join_str [SP] (fst (getWrappedLines (\<lambda>s. real (length s)) 2 Map.empty ''hello there friend'' 10 1))
     = ''hello there friend''
   \<and> concat (map line_words (fst (getWrappedLines (\<lambda>s. real (length s)) 2 Map.empty
         ''hello there friend'' 10 1))) = line_words ''hello there friend''"
proof -
  have h1: "(Map.empty :: layout_cache) 1 = None" by simp
  from layout_preserves_words[OF h1] show ?thesis .
qed

section \<open>Properties of the animations\<close>







lemma fade_example: "globalAlpha (applyAnimation ''fade'' 0.1 1920 1080) = 0.4"
  by (simp add: applyAnimation_def initial_anim_def Let_def progress_of_def)

lemma bounce_example: "translateY (applyAnimation ''bounce'' 0.24 1000 1000) = -250"
  by (simp add: applyAnimation_def initial_anim_def Let_def progress_of_def bounce_yOffset_def)

section \<open>Properties of the frame loop\<close>







section \<open>Properties of the layout cache\<close>

lemma handleCaptionChange_fresh:
  assumes "cache_fresh measureText maxWidth st"
  shows "cache_fresh measureText maxWidth (handleCaptionChange cid newText st)"
proof -
  have old: "ls = computeLines measureText (visualMaxWords st) (seg_text c) maxWidth"
    if "c \<in> set (captions st)" "textLayoutCache st (seg_id c) = Some ls" for c ls
  proof -
    from assms that(1) have "case textLayoutCache st (seg_id c) of None \<Rightarrow> True
       | Some ls \<Rightarrow> ls = computeLines measureText (visualMaxWords st) (seg_text c) maxWidth"
      by (simp add: cache_fresh_def list_all_iff)
    with that(2) show ?thesis by simp
  qed
  show ?thesis
    using old
    by (auto simp: cache_fresh_def list_all_iff handleCaptionChange_def split: option.splits)
qed

text \<open>
  Claim C4, as stated, fails for a text edit: the edit removes the cache entry of the
  edited caption only, and a later lookup for another caption returns the lines that were
  computed before the edit.
\<close>

theorem text_edit_keeps_other_entries:
  "textLayoutCache example_state 2 = Some [''friend''] \<and>
   textLayoutCache (handleCaptionChange 1 ''hi'' example_state) 2 = Some [''friend'']"
  by (simp add: handleCaptionChange_def example_state_def)

text \<open>
  Claim C4, amended. A change of the font, the font size or the word limit empties the
  whole layout cache. A text edit removes the entry of the edited caption id and keeps
  every other entry; the entries kept are not stale: a cache that is fresh before the edit
  is fresh after it.
\<close>

theorem cache_invalidation:
  "(f \<noteq> selectedFont st \<longrightarrow> textLayoutCache (setSelectedFont f st) = Map.empty) \<and>
   (s \<noteq> fontSize st \<longrightarrow> textLayoutCache (setFontSize s st) = Map.empty) \<and>
   (n \<noteq> visualMaxWords st \<longrightarrow> textLayoutCache (setVisualMaxWords n st) = Map.empty) \<and>
   textLayoutCache (handleCaptionChange cid newText st) cid = None \<and>
   (\<forall>k. k \<noteq> cid \<longrightarrow> textLayoutCache (handleCaptionChange cid newText st) k = textLayoutCache st k) \<and>
   (cache_fresh measureText maxWidth st \<longrightarrow>
      cache_fresh measureText maxWidth (handleCaptionChange cid newText st))"
proof -
  have style: "(f \<noteq> selectedFont st \<longrightarrow> textLayoutCache (setSelectedFont f st) = Map.empty) \<and>
   (s \<noteq> fontSize st \<longrightarrow> textLayoutCache (setFontSize s st) = Map.empty) \<and>
   (n \<noteq> visualMaxWords st \<longrightarrow> textLayoutCache (setVisualMaxWords n st) = Map.empty)"
    by (simp add: setSelectedFont_def setFontSize_def setVisualMaxWords_def invalidate_on_style_def)
  have edit: "textLayoutCache (handleCaptionChange cid newText st) cid = None \<and>
   (\<forall>k. k \<noteq> cid \<longrightarrow> textLayoutCache (handleCaptionChange cid newText st) k = textLayoutCache st k)"
    by (simp add: handleCaptionChange_def)
  from style edit handleCaptionChange_fresh[of measureText maxWidth st cid newText]
  show ?thesis by blast
qed

theorem cache_invalidation_witness:
  "textLayoutCache (setSelectedFont ''Mukta'' example_state) = Map.empty \<and>
   textLayoutCache (setFontSize 6 example_state) = Map.empty \<and>
   textLayoutCache (setVisualMaxWords 3 example_state) = Map.empty \<and>
   textLayoutCache (handleCaptionChange 1 ''hi'' example_state) 1 = None \<and>
   textLayoutCache (handleCaptionChange 1 ''hi'' example_state) 2 = textLayoutCache example_state 2 \<and>
   cache_fresh (\<lambda>w. real (length w)) 1000 (handleCaptionChange 1 ''hi'' example_state)"
proof -
  have h1: "''Mukta'' \<noteq> selectedFont example_state" by (simp add: example_state_def)
  have h2: "6 \<noteq> fontSize example_state" by (simp add: example_state_def)
  have h3: "3 \<noteq> visualMaxWords example_state" by (simp add: example_state_def)
  have h4: "(2::int) \<noteq> 1" by simp
  have c1: "computeLines (\<lambda>w. real (length w)) 100 ''hello there'' 1000 = [''hello there'']"
    by code_simp
  have c2: "computeLines (\<lambda>w. real (length w)) 100 ''friend'' 1000 = [''friend'']"
    by code_simp
  have h5: "cache_fresh (\<lambda>w. real (length w)) 1000 example_state"
    by (simp add: cache_fresh_def example_state_def c1 c2)
  from cache_invalidation[of "''Mukta''" example_state 6 3 1 "''hi''" "\<lambda>w. real (length w)" 1000]
    h1 h2 h3 h4 h5
  show ?thesis by blast
qed

section \<open>The exporting flag\<close>

lemma click_while_exporting: "isExporting st \<Longrightarrow> fire st (ClickExport v) = st"
  by simp

text \<open>
  Claim C8 against the code. A click on the export button while the flag is set starts
  nothing (\<open>click_while_exporting\<close>), but the flag does not stay set while an export is in
  progress: when the frame-accurate job throws, its \<open>catch\<close> block starts the real-time
  recorder and its \<open>finally\<close> block clears the flag at once. The button is enabled while
  the recorder runs, and a second click starts a second job.
\<close>

theorem second_export_during_fallback:
  "run_events [ClickExport True, FastSettled True] = \<lparr>isExporting = False, fastJobs = 0, recorders = 1\<rparr> \<and>
   run_events [ClickExport True, FastSettled True, ClickExport True]
     = \<lparr>isExporting = True, fastJobs = 1, recorders = 1\<rparr> \<and>
   jobs_in_flight (run_events [ClickExport True, FastSettled True, ClickExport True]) = 2"
  by (simp add: run_events_def idle_def handleFastExport_def fastExportSettled_def
      handleRealtimeExport_def jobs_in_flight_def)

section \<open>Properties of the timed-text functions\<close>

subsection \<open>Reading integers and blocks\<close>

lemma split_str_examples:
  "split_str [LF, LF] [LF, LF, LF] = [[], [LF]]"
  "split_str '' '' ''a  b'' = [''a'', [], ''b'']"
  "split_str '' --> '' ''A --> B --> C'' = [''A'', ''B'', ''C'']"
  "split_str '':'' [] = [[]]"
  by code_simp+

lemma parseInt_examples:
  "parseInt ''12'' = Some 12"
  "parseInt '' -12abc'' = Some (- 12)"
  "parseInt ''0x1F'' = Some 31"
  "parseInt ''1.5'' = Some 1"
  "parseInt ''abc'' = None"
  "parseInt [] = None"
  "parseInt ''0x'' = None"
  by code_simp+















subsection \<open>Splitting on the separators, line endings and trimming\<close>



















subsection \<open>A serialized segment parses back\<close>








subsection \<open>Segments of a well-formed text\<close>



subsection \<open>The claims about the timed text\<close>







lemma replace_first_none: "a \<notin> set s \<Longrightarrow> replace_first a b s = s"
  by (induction s) auto

lemma replace_first_append: "a \<notin> set s \<Longrightarrow> replace_first a b (s @ a # t) = s @ b # t"
  by (induction s) auto

lemma parseTime_separator:
  assumes "CHR '','' \<notin> set a" "CHR '','' \<notin> set b"
  shows "parseTime parseFloat (a @ '','' @ b) = parseTime parseFloat (a @ ''.'' @ b)"
proof -
  have 1: "replace_first (CHR '','') (CHR ''.'') (a @ '','' @ b) = a @ ''.'' @ b"
    using replace_first_append[OF assms(1)] by simp
  have "CHR '','' \<notin> set (a @ ''.'' @ b)" using assms by simp
  then have 2: "replace_first (CHR '','') (CHR ''.'') (a @ ''.'' @ b) = a @ ''.'' @ b"
    by (rule replace_first_none)
  show ?thesis unfolding parseTime_def 1 2 by simp
qed

lemma join_str_mid: "\<exists>p q. join_str sep (xs @ y # zs) = p @ y @ q"
proof (induction xs)
  case Nil
  show ?case
  proof (cases zs)
    case Nil
    then have "join_str sep ([] @ y # zs) = [] @ y @ []" by simp
    then show ?thesis by blast
  next
    case (Cons z zs')
    then have "join_str sep ([] @ y # zs) = [] @ y @ (sep @ join_str sep zs)" by simp
    then show ?thesis by blast
  qed
next
  case (Cons x xs)
  then obtain p q where pq: "join_str sep (xs @ y # zs) = p @ y @ q" by blast
  obtain v vs where "xs @ y # zs = v # vs" by (cases "xs @ y # zs") auto
  then have "join_str sep ((x # xs) @ y # zs) = x @ sep @ join_str sep (xs @ y # zs)" by simp
  with pq have "join_str sep ((x # xs) @ y # zs) = (x @ sep @ p) @ y @ q" by simp
  then show ?case by blast
qed

lemma generateSRT_verbatim:
  assumes "s \<in> set segs"
  shows "\<exists>pre post. generateSRT segs = pre @ (startTime s @ '' --> '' @ endTime s) @ post"
proof -
  from assms obtain xs zs where "segs = xs @ s # zs" by (auto simp: in_set_conv_decomp)
  then have "generateSRT segs = join_str [LF, LF] (map render_segment xs @ render_segment s # map render_segment zs)"
    by (simp add: generateSRT_def)
  with join_str_mid[of "[LF, LF]" "map render_segment xs" "render_segment s" "map render_segment zs"]
  obtain p q where "generateSRT segs = p @ render_segment s @ q" by auto
  then have "generateSRT segs = (p @ show_int (seg_id s) @ [LF]) @ (startTime s @ '' --> '' @ endTime s)
      @ ([LF] @ seg_text s @ q)"
    by (simp add: render_segment_def)
  then show ?thesis by blast
qed

text \<open>
  Claim C6, as stated, fails for a caption set parsed from an input with dots: the
  serialized output carries the dots and no comma.
\<close>

theorem dots_stay_dots:
  "parseSRT srt_dots =
     [\<lparr>seg_id = 1, startTime = ''00:00:01.000'', endTime = ''00:00:02.500'', seg_text = ''hi''\<rparr>] \<and>
   generateSRT (parseSRT srt_dots) = ''1'' @ [LF] @ ''00:00:01.000 --> 00:00:02.500'' @ [LF] @ ''hi'' \<and>
   CHR '','' \<notin> set (generateSRT (parseSRT srt_dots))"
  by code_simp

text \<open>
  Claim C6, amended. \<open>parseTime\<close> gives the same time for a timestamp written with a comma
  and the same timestamp written with a dot; the serialized output contains, for every
  segment, its stored start and end strings unchanged around the arrow, so it carries the
  separator the stored strings have.
\<close>

theorem separator_handling:
  "(CHR '','' \<notin> set a \<and> CHR '','' \<notin> set b \<longrightarrow>
      parseTime parseFloat (a @ '','' @ b) = parseTime parseFloat (a @ ''.'' @ b)) \<and>
   (s \<in> set segs \<longrightarrow>
      (\<exists>pre post. generateSRT segs = pre @ (startTime s @ '' --> '' @ endTime s) @ post))"
  using parseTime_separator[of a b parseFloat] generateSRT_verbatim[of s segs] by blast

theorem separator_handling_witness:
  "parseTime (\<lambda>p. real (length p)) ''00:00:05,123'' = parseTime (\<lambda>p. real (length p)) ''00:00:05.123'' \<and>
   (\<exists>pre post. generateSRT (parseSRT srt_dots) = pre @ ''00:00:01.000 --> 00:00:02.500'' @ post)"
proof -
  have h1: "CHR '','' \<notin> set ''00:00:05'' \<and> CHR '','' \<notin> set ''123''" by simp
  have h2: "\<lparr>seg_id = 1, startTime = ''00:00:01.000'', endTime = ''00:00:02.500'', seg_text = ''hi''\<rparr>
              \<in> set (parseSRT srt_dots)"
    by code_simp
  from separator_handling[of "''00:00:05''" "''123''" "\<lambda>p. real (length p)"
      "\<lparr>seg_id = 1, startTime = ''00:00:01.000'', endTime = ''00:00:02.500'', seg_text = ''hi''\<rparr>"
      "parseSRT srt_dots"] h1 h2
  show ?thesis by simp
qed

end
